theory Spec2Isabelle
  imports Main
begin

section \<open>Ordered multisets of bst\_avl.py: the unbalanced BST and the AVL tree\<close>

text \<open>
  The two classes \<^verbatim>\<open>BST\<close> and \<^verbatim>\<open>AVL\<close> of \<^verbatim>\<open>src/bst_avl.py\<close> are embedded as
  functions on immutable trees. A Python node owns its children exclusively and no node is
  shared, so the in-place updates of the source are rendered by returning the updated
  subtree, which is what \<^verbatim>\<open>_insert\<close> and the rotations return as well. The constructors
  \<open>BNone\<close> and \<open>ANone\<close> stand for Python's \<^verbatim>\<open>None\<close> in an \<^verbatim>\<open>Optional[...]\<close> slot.
  Python integers are unbounded: \<open>int\<close>. The functions of the subsections on the BST and
  the AVL tree say what the methods compute when the interpreter's recursion limit is not
  reached; the subsection on the recursion limit adds the bound on nested calls.
\<close>

subsection \<open>Errors\<close>

text \<open>
  \<open>ValueError\<close> is the \<^verbatim>\<open>raise ValueError("...")\<close> of \<^verbatim>\<open>get_max\<close> and \<^verbatim>\<open>get_min\<close> on an
  empty tree (the specification calls it EmptyTreeError). \<open>AttributeError\<close> is what Python
  raises when a field of \<^verbatim>\<open>None\<close> is read, as in \<^verbatim>\<open>node.left.value\<close> or \<^verbatim>\<open>z.right\<close>.
  \<open>RecursionError\<close> is what the interpreter raises when calls nest deeper than its limit.
\<close>

datatype error = ValueError | AttributeError | RecursionError

subsection \<open>BST\<close>

text \<open>\<^verbatim>\<open>class BSTNode\<close>: fields \<^verbatim>\<open>value\<close>, \<^verbatim>\<open>left\<close>, \<^verbatim>\<open>right\<close>, \<^verbatim>\<open>count\<close>.\<close>

datatype bst = BNone | BSTNode (b_value: int) (b_left: bst) (b_right: bst) (b_count: int)

text \<open>\<^verbatim>\<open>BST._insert(node, value)\<close>; a fresh node is \<^verbatim>\<open>BSTNode(value)\<close> with \<^verbatim>\<open>count = 1\<close>.\<close>

fun BST_insert_aux :: "bst \<Rightarrow> int \<Rightarrow> bst" where
  "BST_insert_aux BNone x = BSTNode x BNone BNone 1"
| "BST_insert_aux (BSTNode v l r c) x =
     (if x < v then BSTNode v (BST_insert_aux l x) r c
      else if x > v then BSTNode v l (BST_insert_aux r x) c
      else BSTNode v l r (c + 1))"

text \<open>\<^verbatim>\<open>BST.insert(value)\<close>: \<^verbatim>\<open>self.root = self._insert(self.root, value)\<close>. The state of
  a \<^verbatim>\<open>BST\<close> object is its root.\<close>

definition BST_insert :: "bst \<Rightarrow> int \<Rightarrow> bst" where
  "BST_insert root x = BST_insert_aux root x"

text \<open>The loop \<^verbatim>\<open>for v in values: tree.insert(v)\<close> of the callers.\<close>

fun BST_inserts :: "bst \<Rightarrow> int list \<Rightarrow> bst" where
  "BST_inserts root [] = root"
| "BST_inserts root (x # xs) = BST_inserts (BST_insert root x) xs"

text \<open>The \<^verbatim>\<open>while node.right is not None: node = node.right\<close> loop of \<^verbatim>\<open>get_max\<close>,
  started at \<open>node\<close>, followed by \<^verbatim>\<open>return node.value\<close>.\<close>

fun BST_max_loop :: "bst \<Rightarrow> error + int" where
  "BST_max_loop BNone = Inl AttributeError"
| "BST_max_loop (BSTNode v l r c) = (if r \<noteq> BNone then BST_max_loop r else Inr v)"

definition BST_get_max :: "bst \<Rightarrow> error + int" where
  "BST_get_max root = (if root = BNone then Inl ValueError else BST_max_loop root)"

fun BST_min_loop :: "bst \<Rightarrow> error + int" where
  "BST_min_loop BNone = Inl AttributeError"
| "BST_min_loop (BSTNode v l r c) = (if l \<noteq> BNone then BST_min_loop l else Inr v)"

definition BST_get_min :: "bst \<Rightarrow> error + int" where
  "BST_get_min root = (if root = BNone then Inl ValueError else BST_min_loop root)"

text \<open>The inner \<^verbatim>\<open>_sum\<close> of \<^verbatim>\<open>BST.get_sum\<close>.\<close>

fun BST_sum :: "bst \<Rightarrow> int" where
  "BST_sum BNone = 0"
| "BST_sum (BSTNode v l r c) = v * c + BST_sum l + BST_sum r"

definition BST_get_sum :: "bst \<Rightarrow> int" where
  "BST_get_sum root = BST_sum root"

subsection \<open>AVL\<close>

text \<open>\<^verbatim>\<open>class AVLNode\<close>: fields \<^verbatim>\<open>value\<close>, \<^verbatim>\<open>left\<close>, \<^verbatim>\<open>right\<close>, \<^verbatim>\<open>height\<close>, \<^verbatim>\<open>count\<close>.\<close>

datatype avl = ANone
  | AVLNode (a_value: int) (a_left: avl) (a_right: avl) (a_height: int) (a_count: int)

text \<open>\<^verbatim>\<open>AVL._height\<close>: \<^verbatim>\<open>node.height if node else 0\<close>.\<close>

fun AVL_height :: "avl \<Rightarrow> int" where
  "AVL_height ANone = 0"
| "AVL_height (AVLNode v l r h c) = h"

text \<open>\<^verbatim>\<open>AVL._get_balance\<close>.\<close>

fun AVL_get_balance :: "avl \<Rightarrow> int" where
  "AVL_get_balance ANone = 0"
| "AVL_get_balance (AVLNode v l r h c) = AVL_height l - AVL_height r"

text \<open>\<^verbatim>\<open>AVL._left_rotate(z)\<close>: \<^verbatim>\<open>y = z.right\<close> and \<^verbatim>\<open>T2 = y.left\<close> raise when \<open>z\<close> or
  \<open>z.right\<close> is \<^verbatim>\<open>None\<close>; then \<open>z\<close> gets \<open>T2\<close> as right child and its height, \<open>y\<close> gets \<open>z\<close> as
  left child and its height, and \<open>y\<close> is returned.\<close>

fun AVL_left_rotate :: "avl \<Rightarrow> error + avl" where
  "AVL_left_rotate (AVLNode zv zl (AVLNode yv T2 yr yh yc) zh zc) =
     (let z = AVLNode zv zl T2 (1 + max (AVL_height zl) (AVL_height T2)) zc;
          y = AVLNode yv z yr (1 + max (AVL_height z) (AVL_height yr)) yc
      in Inr y)"
| "AVL_left_rotate (AVLNode zv zl ANone zh zc) = Inl AttributeError"
| "AVL_left_rotate ANone = Inl AttributeError"

text \<open>\<^verbatim>\<open>AVL._right_rotate(z)\<close>, with \<^verbatim>\<open>y = z.left\<close> and \<^verbatim>\<open>T3 = y.right\<close>.\<close>

fun AVL_right_rotate :: "avl \<Rightarrow> error + avl" where
  "AVL_right_rotate (AVLNode zv (AVLNode yv yl T3 yh yc) zr zh zc) =
     (let z = AVLNode zv T3 zr (1 + max (AVL_height T3) (AVL_height zr)) zc;
          y = AVLNode yv yl z (1 + max (AVL_height yl) (AVL_height z)) yc
      in Inr y)"
| "AVL_right_rotate (AVLNode zv ANone zr zh zc) = Inl AttributeError"
| "AVL_right_rotate ANone = Inl AttributeError"

text \<open>
  Lines 86 to 100 of \<^verbatim>\<open>AVL._insert\<close>: what happens at \<open>node\<close> once the recursive call has
  replaced one of its children. The height is recomputed, then the four tests run in the
  order of the source. \<^verbatim>\<open>node.left.value\<close> is read only when \<^verbatim>\<open>balance > 1\<close> holds (Python's
  \<^verbatim>\<open>and\<close> is short-circuit) and raises when \<^verbatim>\<open>node.left\<close> is \<^verbatim>\<open>None\<close>; likewise for
  \<^verbatim>\<open>node.right.value\<close>.
\<close>

definition AVL_rebalance :: "int \<Rightarrow> avl \<Rightarrow> avl \<Rightarrow> int \<Rightarrow> int \<Rightarrow> error + avl" where
  "AVL_rebalance v l r c x =
     (let height = 1 + max (AVL_height l) (AVL_height r);
          node = AVLNode v l r height c;
          balance = AVL_get_balance node
      in if balance > 1 \<and> l = ANone then Inl AttributeError
         else if balance > 1 \<and> x < a_value l then AVL_right_rotate node
         else if balance < - 1 \<and> r = ANone then Inl AttributeError
         else if balance < - 1 \<and> x > a_value r then AVL_left_rotate node
         else if balance > 1 \<and> x > a_value l then
           (case AVL_left_rotate l of
              Inl e \<Rightarrow> Inl e
            | Inr l' \<Rightarrow> AVL_right_rotate (AVLNode v l' r height c))
         else if balance < - 1 \<and> x < a_value r then
           (case AVL_right_rotate r of
              Inl e \<Rightarrow> Inl e
            | Inr r' \<Rightarrow> AVL_left_rotate (AVLNode v l r' height c))
         else Inr node)"

text \<open>\<^verbatim>\<open>AVL._insert(node, value)\<close>; a fresh node is \<^verbatim>\<open>AVLNode(value)\<close> with
  \<^verbatim>\<open>height = 1\<close> and \<^verbatim>\<open>count = 1\<close>. An exception of the recursive call propagates. On an
  equal value the count is incremented and the node returned at once.\<close>

fun AVL_insert_aux :: "avl \<Rightarrow> int \<Rightarrow> error + avl" where
  "AVL_insert_aux ANone x = Inr (AVLNode x ANone ANone 1 1)"
| "AVL_insert_aux (AVLNode v l r h c) x =
     (if x < v then
        (case AVL_insert_aux l x of
           Inl e \<Rightarrow> Inl e
         | Inr l' \<Rightarrow> AVL_rebalance v l' r c x)
      else if x > v then
        (case AVL_insert_aux r x of
           Inl e \<Rightarrow> Inl e
         | Inr r' \<Rightarrow> AVL_rebalance v l r' c x)
      else Inr (AVLNode v l r h (c + 1)))"

text \<open>\<^verbatim>\<open>AVL.insert(value)\<close>: \<^verbatim>\<open>self.root = self._insert(self.root, value)\<close>.\<close>

definition AVL_insert :: "avl \<Rightarrow> int \<Rightarrow> error + avl" where
  "AVL_insert root x = AVL_insert_aux root x"

text \<open>The loop \<^verbatim>\<open>for v in values: tree.insert(v)\<close>; the first exception ends it.\<close>

fun AVL_inserts :: "avl \<Rightarrow> int list \<Rightarrow> error + avl" where
  "AVL_inserts root [] = Inr root"
| "AVL_inserts root (x # xs) =
     (case AVL_insert root x of
        Inl e \<Rightarrow> Inl e
      | Inr root' \<Rightarrow> AVL_inserts root' xs)"

fun AVL_max_loop :: "avl \<Rightarrow> error + int" where
  "AVL_max_loop ANone = Inl AttributeError"
| "AVL_max_loop (AVLNode v l r h c) = (if r \<noteq> ANone then AVL_max_loop r else Inr v)"

definition AVL_get_max :: "avl \<Rightarrow> error + int" where
  "AVL_get_max root = (if root = ANone then Inl ValueError else AVL_max_loop root)"

fun AVL_min_loop :: "avl \<Rightarrow> error + int" where
  "AVL_min_loop ANone = Inl AttributeError"
| "AVL_min_loop (AVLNode v l r h c) = (if l \<noteq> ANone then AVL_min_loop l else Inr v)"

definition AVL_get_min :: "avl \<Rightarrow> error + int" where
  "AVL_get_min root = (if root = ANone then Inl ValueError else AVL_min_loop root)"

fun AVL_sum :: "avl \<Rightarrow> int" where
  "AVL_sum ANone = 0"
| "AVL_sum (AVLNode v l r h c) = v * c + AVL_sum l + AVL_sum r"

definition AVL_get_sum :: "avl \<Rightarrow> int" where
  "AVL_get_sum root = AVL_sum root"

text \<open>The inner \<^verbatim>\<open>check_node\<close> of \<^verbatim>\<open>AVL.verify_avl_property\<close>: it recomputes the heights
  from the shape of the tree and never reads the \<^verbatim>\<open>height\<close> field.\<close>

fun check_node :: "avl \<Rightarrow> bool \<times> int" where
  "check_node ANone = (True, 0)"
| "check_node (AVLNode v l r h c) =
     (let (left_ok, left_height) = check_node l;
          (right_ok, right_height) = check_node r;
          balanced = (\<bar>left_height - right_height\<bar> \<le> 1);
          height = 1 + max left_height right_height
      in (left_ok \<and> right_ok \<and> balanced, height))"

definition AVL_verify_avl_property :: "avl \<Rightarrow> bool" where
  "AVL_verify_avl_property root = (let (ok, _) = check_node root in ok)"



subsection \<open>Invariants of the AVL tree\<close>

text \<open>The height invariant: every stored \<^verbatim>\<open>height\<close> field is one more than the larger of
  the children's \<^verbatim>\<open>_height\<close>.\<close>

fun AVL_heights_ok :: "avl \<Rightarrow> bool" where
  "AVL_heights_ok ANone = True"
| "AVL_heights_ok (AVLNode v l r h c) =
     (h = 1 + max (AVL_height l) (AVL_height r) \<and> AVL_heights_ok l \<and> AVL_heights_ok r)"

text \<open>Height invariant and balance invariant together, on the stored heights.\<close>

fun avl_inv :: "avl \<Rightarrow> bool" where
  "avl_inv ANone = True"
| "avl_inv (AVLNode v l r h c) =
     (h = 1 + max (AVL_height l) (AVL_height r) \<and> \<bar>AVL_height l - AVL_height r\<bar> \<le> 1
      \<and> avl_inv l \<and> avl_inv r)"

text \<open>\<open>leans x t\<close>: the subtree of \<open>t\<close> on the side of \<open>x\<close> is strictly higher than the
  other one.\<close>

fun leans :: "int \<Rightarrow> avl \<Rightarrow> bool" where
  "leans x ANone = False"
| "leans x (AVLNode v l r h c) =
     ((x < v \<and> AVL_height r < AVL_height l) \<or> (v < x \<and> AVL_height l < AVL_height r))"



subsection \<open>Observations on trees\<close>

text \<open>The nodes of a tree from left to right, each as the pair of its \<^verbatim>\<open>value\<close> and its
  \<^verbatim>\<open>count\<close>; the values alone; and the ordering invariant read at every node: the values of
  the left subtree are smaller than the node's, those of the right subtree larger.\<close>

fun BST_inorder :: "bst \<Rightarrow> (int \<times> int) list" where
  "BST_inorder BNone = []"
| "BST_inorder (BSTNode v l r c) = BST_inorder l @ (v, c) # BST_inorder r"

definition BST_values :: "bst \<Rightarrow> int list" where
  "BST_values t = map fst (BST_inorder t)"

fun BST_ordered :: "bst \<Rightarrow> bool" where
  "BST_ordered BNone = True"
| "BST_ordered (BSTNode v l r c) =
     ((\<forall>y \<in> set (BST_values l). y < v) \<and> (\<forall>y \<in> set (BST_values r). v < y)
      \<and> BST_ordered l \<and> BST_ordered r)"

fun AVL_inorder :: "avl \<Rightarrow> (int \<times> int) list" where
  "AVL_inorder ANone = []"
| "AVL_inorder (AVLNode v l r h c) = AVL_inorder l @ (v, c) # AVL_inorder r"

definition AVL_values :: "avl \<Rightarrow> int list" where
  "AVL_values t = map fst (AVL_inorder t)"

fun AVL_ordered :: "avl \<Rightarrow> bool" where
  "AVL_ordered ANone = True"
| "AVL_ordered (AVLNode v l r h c) =
     ((\<forall>y \<in> set (AVL_values l). y < v) \<and> (\<forall>y \<in> set (AVL_values r). v < y)
      \<and> AVL_ordered l \<and> AVL_ordered r)"

subsection \<open>The ordered multiset as a sorted list\<close>

text \<open>Insertion of a value into a list of (value, count) pairs sorted by value, used to
  describe what the trees hold; \<open>weighted_sum\<close>, \<open>first_key\<close> and \<open>last_key\<close> are the three
  queries on such a list.\<close>

fun ins_list :: "int \<Rightarrow> (int \<times> int) list \<Rightarrow> (int \<times> int) list" where
  "ins_list x [] = [(x, 1)]"
| "ins_list x ((v, c) # ps) =
     (if x < v then (x, 1) # (v, c) # ps
      else if x > v then (v, c) # ins_list x ps
      else (v, c + 1) # ps)"

fun ins_all :: "(int \<times> int) list \<Rightarrow> int list \<Rightarrow> (int \<times> int) list" where
  "ins_all ps [] = ps"
| "ins_all ps (x # xs) = ins_all (ins_list x ps) xs"

definition weighted_sum :: "(int \<times> int) list \<Rightarrow> int" where
  "weighted_sum ps = sum_list (map (\<lambda>(v, c). v * c) ps)"

definition first_key :: "(int \<times> int) list \<Rightarrow> error + int" where
  "first_key ps = (case ps of [] \<Rightarrow> Inl ValueError | p # _ \<Rightarrow> Inr (fst p))"

definition last_key :: "(int \<times> int) list \<Rightarrow> error + int" where
  "last_key ps = (if ps = [] then Inl ValueError else Inr (fst (last ps)))"

abbreviation ssorted :: "(int \<times> int) list \<Rightarrow> bool" where
  "ssorted ps \<equiv> sorted_wrt (<) (map fst ps)"

subsection \<open>Multiplicities and shape\<close>

text \<open>\<open>count_in\<close> adds up the counts stored under a value and \<open>nodes_in\<close> counts the nodes
  that hold it. The shape of a tree is the tree with every \<^verbatim>\<open>count\<close> set to 0: two trees of
  equal shape have the same nodes in the same places, with the same values (and, for the
  AVL tree, the same stored heights). The size is the number of nodes.\<close>

definition count_in :: "(int \<times> int) list \<Rightarrow> int \<Rightarrow> int" where
  "count_in ps x = sum_list (map snd (filter (\<lambda>p. fst p = x) ps))"

definition nodes_in :: "(int \<times> int) list \<Rightarrow> int \<Rightarrow> nat" where
  "nodes_in ps x = length (filter (\<lambda>p. fst p = x) ps)"

definition BST_count_of :: "bst \<Rightarrow> int \<Rightarrow> int" where
  "BST_count_of t x = count_in (BST_inorder t) x"

definition BST_nodes_with :: "bst \<Rightarrow> int \<Rightarrow> nat" where
  "BST_nodes_with t x = nodes_in (BST_inorder t) x"

definition AVL_count_of :: "avl \<Rightarrow> int \<Rightarrow> int" where
  "AVL_count_of t x = count_in (AVL_inorder t) x"

definition AVL_nodes_with :: "avl \<Rightarrow> int \<Rightarrow> nat" where
  "AVL_nodes_with t x = nodes_in (AVL_inorder t) x"

fun BST_shape :: "bst \<Rightarrow> bst" where
  "BST_shape BNone = BNone"
| "BST_shape (BSTNode v l r c) = BSTNode v (BST_shape l) (BST_shape r) 0"

fun AVL_shape :: "avl \<Rightarrow> avl" where
  "AVL_shape ANone = ANone"
| "AVL_shape (AVLNode v l r h c) = AVLNode v (AVL_shape l) (AVL_shape r) h 0"

fun BST_size :: "bst \<Rightarrow> nat" where
  "BST_size BNone = 0"
| "BST_size (BSTNode v l r c) = 1 + BST_size l + BST_size r"

fun AVL_size :: "avl \<Rightarrow> nat" where
  "AVL_size ANone = 0"
| "AVL_size (AVLNode v l r h c) = 1 + AVL_size l + AVL_size r"

subsection \<open>The recursion limit\<close>

















section \<open>Insertion into the AVL tree keeps it balanced\<close>

lemma avl_inv_height_nonneg: "avl_inv t \<Longrightarrow> 0 \<le> AVL_height t"
  by (induction t) auto

lemma rebalance_left:
  assumes "avl_inv l'" "avl_inv r"
    and "AVL_height r - 1 \<le> AVL_height l'" "AVL_height l' \<le> AVL_height r + 2"
    and "AVL_height l' = AVL_height r + 2 \<Longrightarrow> leans x l'"
  shows "\<exists>t'. AVL_rebalance v l' r c x = Inr t' \<and> avl_inv t'
     \<and> (if AVL_height l' = AVL_height r + 2 then AVL_height t' = AVL_height l'
         else t' = AVLNode v l' r (1 + max (AVL_height l') (AVL_height r)) c)"
proof (cases "AVL_height l' = AVL_height r + 2")
  case False
  with assms show ?thesis by (auto simp: AVL_rebalance_def)
next
  case True
  with assms(5) have lean: "leans x l'" by simp
  then obtain lv ll lr lh lc where l': "l' = AVLNode lv ll lr lh lc" by (cases l') auto
  show ?thesis
  proof (cases "x < lv")
    case True
    with lean l' assms \<open>AVL_height l' = AVL_height r + 2\<close> show ?thesis
      by (auto simp: AVL_rebalance_def)
  next
    case False
    with lean l' have gt: "lv < x" "AVL_height ll < AVL_height lr" by auto
    from assms(1) l' have "avl_inv lr" by simp
    moreover have "0 \<le> AVL_height ll" using assms(1) l' avl_inv_height_nonneg by simp
    ultimately obtain mv ml mr mh mc where lr: "lr = AVLNode mv ml mr mh mc"
      using gt by (cases lr) auto
    with gt l' assms \<open>AVL_height l' = AVL_height r + 2\<close> show ?thesis
      by (auto simp: AVL_rebalance_def)
  qed
qed


lemma rebalance_right:
  assumes "avl_inv l" "avl_inv r'"
    and "AVL_height l - 1 \<le> AVL_height r'" "AVL_height r' \<le> AVL_height l + 2"
    and "AVL_height r' = AVL_height l + 2 \<Longrightarrow> leans x r'"
  shows "\<exists>t'. AVL_rebalance v l r' c x = Inr t' \<and> avl_inv t'
     \<and> (if AVL_height r' = AVL_height l + 2 then AVL_height t' = AVL_height r'
         else t' = AVLNode v l r' (1 + max (AVL_height l) (AVL_height r')) c)"
proof (cases "AVL_height r' = AVL_height l + 2")
  case False
  with assms show ?thesis by (auto simp: AVL_rebalance_def)
next
  case True
  with assms(5) have lean: "leans x r'" by simp
  then obtain rv rl rr rh rc where r': "r' = AVLNode rv rl rr rh rc" by (cases r') auto
  show ?thesis
  proof (cases "rv < x")
    case True
    with lean r' assms \<open>AVL_height r' = AVL_height l + 2\<close> show ?thesis
      by (auto simp: AVL_rebalance_def)
  next
    case False
    with lean r' have lt: "x < rv" "AVL_height rr < AVL_height rl" by auto
    from assms(2) r' have "avl_inv rl" by simp
    moreover have "0 \<le> AVL_height rr" using assms(2) r' avl_inv_height_nonneg by simp
    ultimately obtain mv ml mr mh mc where rl: "rl = AVLNode mv ml mr mh mc"
      using lt by (cases rl) auto
    with lt r' assms \<open>AVL_height r' = AVL_height l + 2\<close> show ?thesis
      by (auto simp: AVL_rebalance_def)
  qed
qed

lemma insert_aux_inv:
  "avl_inv t \<Longrightarrow>
   \<exists>t'. AVL_insert_aux t x = Inr t' \<and> avl_inv t'
     \<and> (AVL_height t' = AVL_height t
         \<or> (AVL_height t' = AVL_height t + 1 \<and> (t = ANone \<or> leans x t')))"
proof (induction t)
  case ANone
  show ?case by simp
next
  case (AVLNode v l r h c)
  from AVLNode.prems have il: "avl_inv l" and ir: "avl_inv r"
    and h: "h = 1 + max (AVL_height l) (AVL_height r)"
    and b: "\<bar>AVL_height l - AVL_height r\<bar> \<le> 1" by auto
  have nl: "0 \<le> AVL_height l" and nr: "0 \<le> AVL_height r"
    using il ir avl_inv_height_nonneg by auto
  consider (lt) "x < v" | (gt) "v < x" | (eq) "x = v" by linarith
  then show ?case
  proof cases
    case eq
    with AVLNode.prems show ?thesis by simp
  next
    case lt
    from AVLNode.IH(1)[OF il] obtain l' where l': "AVL_insert_aux l x = Inr l'" "avl_inv l'"
      and hl: "AVL_height l' = AVL_height l
         \<or> (AVL_height l' = AVL_height l + 1 \<and> (l = ANone \<or> leans x l'))" by blast
    have lean: "AVL_height l' = AVL_height r + 2 \<Longrightarrow> leans x l'"
      using hl b nr by auto
    have "AVL_height r - 1 \<le> AVL_height l'" "AVL_height l' \<le> AVL_height r + 2"
      using hl b by auto
    from rebalance_left[OF l'(2) ir this lean, of v c] obtain t' where
      t': "AVL_rebalance v l' r c x = Inr t'" "avl_inv t'"
      and sh: "if AVL_height l' = AVL_height r + 2 then AVL_height t' = AVL_height l'
         else t' = AVLNode v l' r (1 + max (AVL_height l') (AVL_height r)) c" by blast
    have "AVL_height t' = h \<or> (AVL_height t' = h + 1 \<and> leans x t')"
      using sh hl b h lt by (auto split: if_splits)
    with t' l' lt show ?thesis by simp
  next
    case gt
    from AVLNode.IH(2)[OF ir] obtain r' where r': "AVL_insert_aux r x = Inr r'" "avl_inv r'"
      and hr: "AVL_height r' = AVL_height r
         \<or> (AVL_height r' = AVL_height r + 1 \<and> (r = ANone \<or> leans x r'))" by blast
    have lean: "AVL_height r' = AVL_height l + 2 \<Longrightarrow> leans x r'"
      using hr b nl by auto
    have "AVL_height l - 1 \<le> AVL_height r'" "AVL_height r' \<le> AVL_height l + 2"
      using hr b by auto
    from rebalance_right[OF il r'(2) this lean, of v c] obtain t' where
      t': "AVL_rebalance v l r' c x = Inr t'" "avl_inv t'"
      and sh: "if AVL_height r' = AVL_height l + 2 then AVL_height t' = AVL_height r'
         else t' = AVLNode v l r' (1 + max (AVL_height l) (AVL_height r')) c" by blast
    have "AVL_height t' = h \<or> (AVL_height t' = h + 1 \<and> leans x t')"
      using sh hr b h gt by (auto split: if_splits)
    with t' r' gt show ?thesis by simp
  qed
qed

lemma check_node_inv: "avl_inv t \<Longrightarrow> check_node t = (True, AVL_height t)"
  by (induction t) auto

lemma inserts_inv:
  "avl_inv t \<Longrightarrow> \<exists>t'. AVL_inserts t xs = Inr t' \<and> avl_inv t'"
proof (induction xs arbitrary: t)
  case Nil
  then show ?case by simp
next
  case (Cons x xs)
  from insert_aux_inv[OF Cons.prems, of x] obtain t1 where
    t1: "AVL_insert_aux t x = Inr t1" "avl_inv t1" by blast
  from Cons.IH[OF t1(2)] t1(1) show ?case by (simp add: AVL_insert_def)
qed

lemma avl_inv_heights_ok: "avl_inv t \<Longrightarrow> AVL_heights_ok t"
  by (induction t) auto


section \<open>What the trees hold\<close>

lemma ins_list_before:
  "x < v \<Longrightarrow> ins_list x (ps @ (v, c) # qs) = ins_list x ps @ (v, c) # qs"
  by (induction ps) auto

lemma ins_list_after:
  "\<forall>p \<in> set ps. fst p < v \<Longrightarrow> v \<le> x \<Longrightarrow>
   ins_list x (ps @ (v, c) # qs) = ps @ ins_list x ((v, c) # qs)"
  by (induction ps) auto

lemma ssorted_append_Cons:
  "sorted_wrt (<) (map fst ps @ v # map fst qs) =
   (ssorted ps \<and> ssorted qs \<and> (\<forall>p \<in> set ps. fst p < v) \<and> (\<forall>q \<in> set qs. v < fst q))"
  by (fastforce simp: sorted_wrt_append)

lemma ins_list_keys: "fst ` set (ins_list x ps) = insert x (fst ` set ps)"
  by (induction x ps rule: ins_list.induct) (simp_all add: insert_commute)

lemma ins_list_ssorted: "ssorted ps \<Longrightarrow> ssorted (ins_list x ps)"
proof (induction ps)
  case Nil
  show ?case by simp
next
  case (Cons p ps)
  obtain v c where p: "p = (v, c)" by (cases p)
  from Cons.prems have "ssorted ps" by simp
  then have "ssorted (ins_list x ps)" by (rule Cons.IH)
  moreover have "v < x \<Longrightarrow> \<forall>k \<in> fst ` set (ins_list x ps). v < k"
    using Cons.prems p unfolding ins_list_keys by auto
  ultimately show ?case using Cons.prems p by auto
qed

lemma ins_list_weighted_sum: "weighted_sum (ins_list x ps) = weighted_sum ps + x"
  by (induction x ps rule: ins_list.induct) (simp_all add: weighted_sum_def algebra_simps)

lemma BST_ordered_ssorted: "BST_ordered t = ssorted (BST_inorder t)"
  by (induction t) (simp_all add: BST_values_def ssorted_append_Cons conj_commute conj_left_commute)

lemma AVL_ordered_ssorted: "AVL_ordered t = ssorted (AVL_inorder t)"
  by (induction t) (simp_all add: AVL_values_def ssorted_append_Cons conj_commute conj_left_commute)

lemma BST_insert_aux_inorder:
  "BST_ordered t \<Longrightarrow> BST_inorder (BST_insert_aux t x) = ins_list x (BST_inorder t)"
proof (induction t)
  case BNone
  show ?case by simp
next
  case (BSTNode v l r c)
  then show ?case
    by (auto simp: ins_list_before ins_list_after BST_values_def)
qed

lemma AVL_left_rotate_inorder: "AVL_left_rotate z = Inr t \<Longrightarrow> AVL_inorder t = AVL_inorder z"
  by (induction z rule: AVL_left_rotate.induct) auto

lemma AVL_right_rotate_inorder: "AVL_right_rotate z = Inr t \<Longrightarrow> AVL_inorder t = AVL_inorder z"
  by (induction z rule: AVL_right_rotate.induct) auto

lemma AVL_rebalance_inorder:
  assumes "AVL_rebalance v l r c x = Inr t"
  shows "AVL_inorder t = AVL_inorder l @ (v, c) # AVL_inorder r"
  using assms unfolding AVL_rebalance_def Let_def
  by (auto split: if_splits sum.splits
      dest!: AVL_left_rotate_inorder AVL_right_rotate_inorder)

lemma AVL_insert_aux_inorder:
  "AVL_ordered t \<Longrightarrow> AVL_insert_aux t x = Inr t' \<Longrightarrow>
   AVL_inorder t' = ins_list x (AVL_inorder t)"
proof (induction t arbitrary: t')
  case ANone
  then show ?case by auto
next
  case (AVLNode v l r h c)
  then show ?case
    by (auto simp: ins_list_before ins_list_after AVL_values_def
        split: if_splits sum.splits dest!: AVL_rebalance_inorder)
qed


lemma ins_all_ssorted: "ssorted ps \<Longrightarrow> ssorted (ins_all ps xs)"
  by (induction xs arbitrary: ps) (simp_all add: ins_list_ssorted)

lemma ins_all_keys: "fst ` set (ins_all ps xs) = fst ` set ps \<union> set xs"
  by (induction xs arbitrary: ps) (simp_all add: ins_list_keys)

lemma weighted_sum_Nil: "weighted_sum [] = 0"
  by (simp add: weighted_sum_def)

lemma ins_all_weighted_sum: "weighted_sum (ins_all ps xs) = weighted_sum ps + sum_list xs"
  by (induction xs arbitrary: ps) (simp_all add: ins_list_weighted_sum)

lemma BST_inserts_inorder:
  "BST_ordered t \<Longrightarrow>
   BST_ordered (BST_inserts t xs) \<and> BST_inorder (BST_inserts t xs) = ins_all (BST_inorder t) xs"
proof (induction xs arbitrary: t)
  case Nil
  then show ?case by simp
next
  case (Cons x xs)
  have "BST_ordered (BST_insert_aux t x)"
    using Cons.prems by (simp add: BST_ordered_ssorted BST_insert_aux_inorder ins_list_ssorted)
  from Cons.IH[OF this] Cons.prems show ?case
    by (simp add: BST_insert_def BST_insert_aux_inorder)
qed

lemma AVL_inserts_inorder:
  "avl_inv t \<Longrightarrow> AVL_ordered t \<Longrightarrow>
   \<exists>t'. AVL_inserts t xs = Inr t' \<and> avl_inv t' \<and> AVL_ordered t'
        \<and> AVL_inorder t' = ins_all (AVL_inorder t) xs"
proof (induction xs arbitrary: t)
  case Nil
  then show ?case by simp
next
  case (Cons x xs)
  from insert_aux_inv[OF Cons.prems(1), of x] obtain t1 where
    t1: "AVL_insert_aux t x = Inr t1" "avl_inv t1" by blast
  have io: "AVL_inorder t1 = ins_list x (AVL_inorder t)"
    using AVL_insert_aux_inorder[OF Cons.prems(2) t1(1)] .
  have "AVL_ordered t1"
    using Cons.prems(2) by (simp add: AVL_ordered_ssorted io ins_list_ssorted)
  from Cons.IH[OF t1(2) this] t1(1) io show ?case
    by (simp add: AVL_insert_def)
qed

lemma BST_inorder_Nil: "(BST_inorder t = []) = (t = BNone)"
  by (cases t) simp_all

lemma AVL_inorder_Nil: "(AVL_inorder t = []) = (t = ANone)"
  by (cases t) simp_all

lemma BST_sum_inorder: "BST_sum t = weighted_sum (BST_inorder t)"
  by (induction t) (simp_all add: weighted_sum_def)

lemma AVL_sum_inorder: "AVL_sum t = weighted_sum (AVL_inorder t)"
  by (induction t) (simp_all add: weighted_sum_def)

lemma BST_min_loop_inorder: "t \<noteq> BNone \<Longrightarrow> BST_min_loop t = Inr (fst (hd (BST_inorder t)))"
  by (induction t) (auto simp: BST_inorder_Nil)

lemma BST_max_loop_inorder: "t \<noteq> BNone \<Longrightarrow> BST_max_loop t = Inr (fst (last (BST_inorder t)))"
  by (induction t) (auto simp: BST_inorder_Nil)

lemma AVL_min_loop_inorder: "t \<noteq> ANone \<Longrightarrow> AVL_min_loop t = Inr (fst (hd (AVL_inorder t)))"
  by (induction t) (auto simp: AVL_inorder_Nil)

lemma AVL_max_loop_inorder: "t \<noteq> ANone \<Longrightarrow> AVL_max_loop t = Inr (fst (last (AVL_inorder t)))"
  by (induction t) (auto simp: AVL_inorder_Nil)

lemma BST_get_min_inorder: "BST_get_min t = first_key (BST_inorder t)"
  by (cases "t = BNone")
    (auto simp: BST_get_min_def first_key_def BST_min_loop_inorder BST_inorder_Nil
      split: list.splits)

lemma BST_get_max_inorder: "BST_get_max t = last_key (BST_inorder t)"
  by (simp add: BST_get_max_def last_key_def BST_max_loop_inorder BST_inorder_Nil)

lemma AVL_get_min_inorder: "AVL_get_min t = first_key (AVL_inorder t)"
  by (cases "t = ANone")
    (auto simp: AVL_get_min_def first_key_def AVL_min_loop_inorder AVL_inorder_Nil
      split: list.splits)

lemma AVL_get_max_inorder: "AVL_get_max t = last_key (AVL_inorder t)"
  by (simp add: AVL_get_max_def last_key_def AVL_max_loop_inorder AVL_inorder_Nil)

lemma first_key_Min:
  "ssorted ps \<Longrightarrow> ps \<noteq> [] \<Longrightarrow> first_key ps = Inr (Min (fst ` set ps))"
proof -
  assume s: "ssorted ps" and "ps \<noteq> []"
  then obtain p qs where ps: "ps = p # qs" by (cases ps) auto
  have "Min (insert (fst p) (fst ` set qs)) = fst p"
    using s ps by (intro Min_eqI) auto
  then show ?thesis by (simp add: ps first_key_def)
qed

lemma last_key_Max:
  "ssorted ps \<Longrightarrow> ps \<noteq> [] \<Longrightarrow> last_key ps = Inr (Max (fst ` set ps))"
proof -
  assume s: "ssorted ps" and ne: "ps \<noteq> []"
  then obtain qs p where ps: "ps = qs @ [p]" by (cases ps rule: rev_cases) auto
  have "Max (insert (fst p) (fst ` set qs)) = fst p"
    using s ps by (intro Max_eqI) (auto simp: sorted_wrt_append)
  then show ?thesis by (simp add: ps last_key_def)
qed

section \<open>Multiplicities, duplicates and rotations\<close>

lemma ins_list_count_in:
  "count_in (ins_list x ps) y = count_in ps y + (if x = y then 1 else 0)"
  by (induction x ps rule: ins_list.induct) (auto simp: count_in_def)

lemma ins_all_count_in:
  "count_in (ins_all ps xs) y = count_in ps y + int (count_list xs y)"
  by (induction xs arbitrary: ps) (auto simp: ins_list_count_in)

lemma ssorted_nodes_in:
  "ssorted ps \<Longrightarrow> nodes_in ps y = (if y \<in> fst ` set ps then 1 else 0)"
  by (induction ps) (auto simp: nodes_in_def filter_empty_conv)

lemma BST_size_shape: "BST_size (BST_shape t) = BST_size t"
  by (induction t) simp_all

lemma AVL_size_shape: "AVL_size (AVL_shape t) = AVL_size t"
  by (induction t) simp_all

lemma BST_shape_size: "BST_shape s = BST_shape t \<Longrightarrow> BST_size s = BST_size t"
  using BST_size_shape[of s] BST_size_shape[of t] by simp

lemma AVL_shape_size: "AVL_shape s = AVL_shape t \<Longrightarrow> AVL_size s = AVL_size t"
  using AVL_size_shape[of s] AVL_size_shape[of t] by simp

lemma AVL_shape_height: "AVL_shape s = AVL_shape t \<Longrightarrow> AVL_height s = AVL_height t"
  by (cases s; cases t) auto

lemma BST_insert_aux_present:
  "BST_ordered t \<Longrightarrow> x \<in> set (BST_values t) \<Longrightarrow>
   BST_shape (BST_insert_aux t x) = BST_shape t"
  by (induction t) (auto simp: BST_values_def)

lemma AVL_rebalance_balanced:
  assumes "\<bar>AVL_height l - AVL_height r\<bar> \<le> 1"
  shows "AVL_rebalance v l r c x
    = Inr (AVLNode v l r (1 + max (AVL_height l) (AVL_height r)) c)"
proof -
  have "\<not> 1 < AVL_height l - AVL_height r" "\<not> AVL_height l - AVL_height r < - 1"
    using assms by linarith+
  then show ?thesis by (simp add: AVL_rebalance_def Let_def)
qed

lemma AVL_insert_aux_present:
  "avl_inv t \<Longrightarrow> AVL_ordered t \<Longrightarrow> x \<in> set (AVL_values t) \<Longrightarrow>
   \<exists>t'. AVL_insert_aux t x = Inr t' \<and> AVL_shape t' = AVL_shape t"
proof (induction t)
  case ANone
  then show ?case by (simp add: AVL_values_def)
next
  case (AVLNode v l r h c)
  from AVLNode.prems(1) have il: "avl_inv l" and ir: "avl_inv r"
    and h: "h = 1 + max (AVL_height l) (AVL_height r)"
    and b: "\<bar>AVL_height l - AVL_height r\<bar> \<le> 1" by auto
  from AVLNode.prems(2) have ol: "AVL_ordered l" and or: "AVL_ordered r" by auto
  consider (lt) "x < v" | (gt) "v < x" | (eq) "x = v" by linarith
  then show ?case
  proof cases
    case eq
    then show ?thesis by simp
  next
    case lt
    with AVLNode.prems(2,3) have "x \<in> set (AVL_values l)"
      by (auto simp: AVL_values_def)
    from AVLNode.IH(1)[OF il ol this] obtain l' where
      l': "AVL_insert_aux l x = Inr l'" "AVL_shape l' = AVL_shape l" by blast
    have hl: "AVL_height l' = AVL_height l" using l'(2) by (rule AVL_shape_height)
    have "AVL_rebalance v l' r c x = Inr (AVLNode v l' r h c)"
      using AVL_rebalance_balanced[of l' r v c x] b h hl by simp
    with l' lt show ?thesis by simp
  next
    case gt
    with AVLNode.prems(2,3) have "x \<in> set (AVL_values r)"
      by (auto simp: AVL_values_def)
    from AVLNode.IH(2)[OF ir or this] obtain r' where
      r': "AVL_insert_aux r x = Inr r'" "AVL_shape r' = AVL_shape r" by blast
    have hr: "AVL_height r' = AVL_height r" using r'(2) by (rule AVL_shape_height)
    have "AVL_rebalance v l r' c x = Inr (AVLNode v l r' h c)"
      using AVL_rebalance_balanced[of l r' v c x] b h hr by simp
    with r' gt show ?thesis by simp
  qed
qed

lemma BST_inserts_same:
  "BST_inserts (BSTNode v BNone BNone c) (replicate k v) = BSTNode v BNone BNone (c + int k)"
  by (induction k arbitrary: c) (simp_all add: BST_insert_def)

lemma AVL_inserts_same:
  "AVL_inserts (AVLNode v ANone ANone h c) (replicate k v)
   = Inr (AVLNode v ANone ANone h (c + int k))"
  by (induction k arbitrary: c) (simp_all add: AVL_insert_def)



lemma AVL_left_rotate_node:
  "AVL_left_rotate (AVLNode zv zl (AVLNode yv T2 yr yh yc) zh zc)
     = Inr (AVLNode yv (AVLNode zv zl T2 (1 + max (AVL_height zl) (AVL_height T2)) zc) yr
              (1 + max (1 + max (AVL_height zl) (AVL_height T2)) (AVL_height yr)) yc)"
  by (simp only: AVL_left_rotate.simps Let_def AVL_height.simps)

lemma AVL_right_rotate_node:
  "AVL_right_rotate (AVLNode zv (AVLNode yv yl T3 yh yc) zr zh zc)
     = Inr (AVLNode yv yl (AVLNode zv T3 zr (1 + max (AVL_height T3) (AVL_height zr)) zc)
              (1 + max (AVL_height yl) (1 + max (AVL_height T3) (AVL_height zr))) yc)"
  by (simp only: AVL_right_rotate.simps Let_def AVL_height.simps)

section \<open>The recursion limit and the errors of the operations\<close>











section \<open>The claims\<close>

text \<open>
  C1. Whatever values are inserted into a freshly constructed AVL tree, and after however
  many of them (the first \<open>n\<close> of the sequence \<open>xs\<close>), no insertion raises and
  \<^verbatim>\<open>verify_avl_property()\<close> returns true. Increasing and decreasing sequences are
  sequences like any other.
\<close>

theorem verify_after_every_insertion:
  "\<exists>t. AVL_inserts ANone (take n xs) = Inr t \<and> AVL_verify_avl_property t"
proof -
  from inserts_inv[of ANone "take n xs"] obtain t where
    "AVL_inserts ANone (take n xs) = Inr t" "avl_inv t" by auto
  then show ?thesis by (auto simp: AVL_verify_avl_property_def check_node_inv)
qed

theorem verify_after_every_insertion_witness:
  "\<exists>t. AVL_inserts ANone (take 3 [1, 2, 3, 4]) = Inr t \<and> AVL_verify_avl_property t"
  using verify_after_every_insertion [of 3 "[1, 2, 3, 4]"] by simp

text \<open>
  C7. After any sequence of insertions into a freshly constructed AVL tree, duplicates
  included, every node's stored height is one more than the larger of its children's
  heights, an absent child counting as 0.
\<close>

theorem stored_heights_after_insertions:
  "\<exists>t. AVL_inserts ANone xs = Inr t \<and> AVL_heights_ok t"
proof -
  from inserts_inv[of ANone xs] obtain t where "AVL_inserts ANone xs = Inr t" "avl_inv t"
    by auto
  then show ?thesis by (auto simp: avl_inv_heights_ok)
qed

theorem stored_heights_after_insertions_witness:
  "\<exists>t. AVL_inserts ANone [2, 1, 2, 3, 3] = Inr t \<and> AVL_heights_ok t"
  using stored_heights_after_insertions [of "[2, 1, 2, 3, 3]"] by simp

text \<open>
  C10. \<^verbatim>\<open>verify_avl_property()\<close> on an empty tree, whose root is \<^verbatim>\<open>None\<close>, returns true.
\<close>

theorem verify_empty_tree: "AVL_verify_avl_property ANone"
  by (simp add: AVL_verify_avl_property_def)


text \<open>
  C2. For every sequence \<open>xs\<close> of inserted values, duplicates included, \<^verbatim>\<open>get_sum()\<close>
  returns the sum of \<open>xs\<close>, on the BST and on the AVL tree (whose insertions never raise);
  on an empty tree it returns 0. On any tree \<^verbatim>\<open>get_sum()\<close> is the sum of value times count
  over the nodes.
\<close>

theorem get_sum_is_sum_of_insertions:
  "BST_get_sum (BST_inserts BNone xs) = sum_list xs
   \<and> (\<exists>t. AVL_inserts ANone xs = Inr t \<and> AVL_get_sum t = sum_list xs)
   \<and> BST_get_sum BNone = 0 \<and> AVL_get_sum ANone = 0
   \<and> BST_get_sum b = weighted_sum (BST_inorder b)
   \<and> AVL_get_sum a = weighted_sum (AVL_inorder a)"
proof -
  have "BST_inorder (BST_inserts BNone xs) = ins_all [] xs"
    using BST_inserts_inorder[of BNone xs] by simp
  then have b: "BST_get_sum (BST_inserts BNone xs) = sum_list xs"
    by (simp add: BST_get_sum_def BST_sum_inorder ins_all_weighted_sum weighted_sum_Nil)
  from AVL_inserts_inorder[of ANone xs] obtain t where
    t: "AVL_inserts ANone xs = Inr t" "AVL_inorder t = ins_all [] xs" by auto
  then have "AVL_get_sum t = sum_list xs"
    by (simp add: AVL_get_sum_def AVL_sum_inorder ins_all_weighted_sum weighted_sum_Nil)
  with b t(1) show ?thesis
    by (simp add: BST_get_sum_def AVL_get_sum_def BST_sum_inorder AVL_sum_inorder
        weighted_sum_Nil)
qed

theorem get_sum_is_sum_of_insertions_witness:
  "BST_get_sum (BST_inserts BNone [5, 3, 7, 2, 4, 6, 8, 5]) = 40
   \<and> (\<exists>t. AVL_inserts ANone [5, 3, 7, 2, 4, 6, 8, 5] = Inr t \<and> AVL_get_sum t = 40)"
  using get_sum_is_sum_of_insertions [of "[5, 3, 7, 2, 4, 6, 8, 5]" BNone ANone] by simp

text \<open>
  C3. For every non-empty sequence \<open>xs\<close> of inserted values, \<^verbatim>\<open>get_min()\<close> returns the
  least and \<^verbatim>\<open>get_max()\<close> the greatest of the inserted values, on both structures.
\<close>

theorem get_min_max_of_insertions:
  assumes "xs \<noteq> []"
  shows "BST_get_min (BST_inserts BNone xs) = Inr (Min (set xs))
   \<and> BST_get_max (BST_inserts BNone xs) = Inr (Max (set xs))
   \<and> (\<exists>t. AVL_inserts ANone xs = Inr t
          \<and> AVL_get_min t = Inr (Min (set xs)) \<and> AVL_get_max t = Inr (Max (set xs)))"
proof -
  have s: "ssorted (ins_all [] xs)" by (simp add: ins_all_ssorted)
  have k: "fst ` set (ins_all [] xs) = set xs" by (simp add: ins_all_keys)
  have ne: "ins_all [] xs \<noteq> []" using k assms by fastforce
  have f: "first_key (ins_all [] xs) = Inr (Min (set xs))"
    using first_key_Min[OF s ne] k by simp
  have l: "last_key (ins_all [] xs) = Inr (Max (set xs))"
    using last_key_Max[OF s ne] k by simp
  have b: "BST_inorder (BST_inserts BNone xs) = ins_all [] xs"
    using BST_inserts_inorder[of BNone xs] by simp
  from AVL_inserts_inorder[of ANone xs] obtain t where
    t: "AVL_inserts ANone xs = Inr t" "AVL_inorder t = ins_all [] xs" by auto
  show ?thesis
    using f l b t
    by (simp add: BST_get_min_inorder BST_get_max_inorder AVL_get_min_inorder
        AVL_get_max_inorder)
qed

theorem get_min_max_of_insertions_witness:
  "[5, 3, 7, 2, 4, 6, 8, 5] \<noteq> ([] :: int list)
   \<and> BST_get_min (BST_inserts BNone [5, 3, 7, 2, 4, 6, 8, 5]) = Inr 2
   \<and> BST_get_max (BST_inserts BNone [5, 3, 7, 2, 4, 6, 8, 5]) = Inr 8
   \<and> (\<exists>t. AVL_inserts ANone [5, 3, 7, 2, 4, 6, 8, 5] = Inr t
          \<and> AVL_get_min t = Inr 2 \<and> AVL_get_max t = Inr 8)"
proof -
  have ne: "[5, 3, 7, 2, 4, 6, 8, 5] \<noteq> ([] :: int list)" by simp
  show ?thesis using get_min_max_of_insertions [OF ne] by simp
qed

text \<open>
  C4. For every insertion sequence, in the BST and in the AVL tree every node has only
  smaller values in its left subtree and only larger values in its right subtree. Every
  prefix of an insertion sequence is an insertion sequence, so this holds after each
  operation.
\<close>

theorem ordering_after_insertions:
  "BST_ordered (BST_inserts BNone xs)
   \<and> (\<exists>t. AVL_inserts ANone xs = Inr t \<and> AVL_ordered t)"
  using BST_inserts_inorder[of BNone xs] AVL_inserts_inorder[of ANone xs] by auto

theorem ordering_after_insertions_witness:
  "BST_ordered (BST_inserts BNone [3, 1, 2, 2, 5, 4])
   \<and> (\<exists>t. AVL_inserts ANone [3, 1, 2, 2, 5, 4] = Inr t \<and> AVL_ordered t)"
  using ordering_after_insertions [of "[3, 1, 2, 2, 5, 4]"] by simp

text \<open>
  C9. For every insertion sequence applied to both structures, \<^verbatim>\<open>get_min()\<close>,
  \<^verbatim>\<open>get_max()\<close> and \<^verbatim>\<open>get_sum()\<close> give equal results on the BST and on the AVL tree; the
  results include the error, so either both queries raise or neither does.
\<close>

theorem bst_avl_interchangeable:
  "\<exists>t. AVL_inserts ANone xs = Inr t
     \<and> AVL_get_min t = BST_get_min (BST_inserts BNone xs)
     \<and> AVL_get_max t = BST_get_max (BST_inserts BNone xs)
     \<and> AVL_get_sum t = BST_get_sum (BST_inserts BNone xs)"
proof -
  have b: "BST_inorder (BST_inserts BNone xs) = ins_all [] xs"
    using BST_inserts_inorder[of BNone xs] by simp
  from AVL_inserts_inorder[of ANone xs] obtain t where
    t: "AVL_inserts ANone xs = Inr t" "AVL_inorder t = ins_all [] xs" by auto
  show ?thesis
    using b t
    by (simp add: BST_get_min_inorder BST_get_max_inorder AVL_get_min_inorder
        AVL_get_max_inorder AVL_get_sum_def BST_get_sum_def AVL_sum_inorder BST_sum_inorder)
qed

theorem bst_avl_interchangeable_witness:
  "\<exists>t. AVL_inserts ANone [1, 2, 3, 3] = Inr t
     \<and> AVL_get_min t = BST_get_min (BST_inserts BNone [1, 2, 3, 3])
     \<and> AVL_get_max t = BST_get_max (BST_inserts BNone [1, 2, 3, 3])
     \<and> AVL_get_sum t = BST_get_sum (BST_inserts BNone [1, 2, 3, 3])"
  using bst_avl_interchangeable [of "[1, 2, 3, 3]"] by simp





text \<open>
  C6. Inserting the same value \<open>k \<ge> 1\<close> times into an empty tree yields the single node
  with that value and \<^verbatim>\<open>count = k\<close>. More generally, after any insertion sequence \<open>xs\<close> a
  value \<open>v\<close> of \<open>xs\<close> is held by exactly one node, whose count is the number of occurrences
  of \<open>v\<close> in \<open>xs\<close>; and inserting \<open>v\<close> once more leaves the shape of the tree (its nodes,
  their places, values and stored heights) and the number of nodes as they were. All of
  this holds for the BST and for the AVL tree.
\<close>

theorem duplicates_counted_not_restructured:
  assumes "1 \<le> k" and "v \<in> set xs"
  shows "BST_inserts BNone (replicate k v) = BSTNode v BNone BNone (int k)
   \<and> AVL_inserts ANone (replicate k v) = Inr (AVLNode v ANone ANone 1 (int k))
   \<and> BST_nodes_with (BST_inserts BNone xs) v = 1
   \<and> BST_count_of (BST_inserts BNone xs) v = int (count_list xs v)
   \<and> BST_shape (BST_insert (BST_inserts BNone xs) v) = BST_shape (BST_inserts BNone xs)
   \<and> BST_size (BST_insert (BST_inserts BNone xs) v) = BST_size (BST_inserts BNone xs)
   \<and> (\<exists>t t'. AVL_inserts ANone xs = Inr t \<and> AVL_nodes_with t v = 1
         \<and> AVL_count_of t v = int (count_list xs v)
         \<and> AVL_insert t v = Inr t' \<and> AVL_shape t' = AVL_shape t
         \<and> AVL_size t' = AVL_size t)"
proof -
  from assms(1) obtain j where k: "k = Suc j" by (cases k) auto
  have r1: "BST_inserts BNone (replicate k v) = BSTNode v BNone BNone (int k)"
    using BST_inserts_same[of v 1 j] by (simp add: k BST_insert_def)
  have r2: "AVL_inserts ANone (replicate k v) = Inr (AVLNode v ANone ANone 1 (int k))"
    using AVL_inserts_same[of v 1 1 j] by (simp add: k AVL_insert_def)
  let ?b = "BST_inserts BNone xs"
  have bo: "BST_ordered ?b" and bi: "BST_inorder ?b = ins_all [] xs"
    using BST_inserts_inorder[of BNone xs] by simp_all
  have s: "ssorted (ins_all [] xs)" by (simp add: ins_all_ssorted)
  have kk: "fst ` set (ins_all [] xs) = set xs" by (simp add: ins_all_keys)
  have n: "nodes_in (ins_all [] xs) v = 1"
    using ssorted_nodes_in[OF s, of v] kk assms(2) by simp
  have "count_in [] v = 0" by (simp add: count_in_def)
  then have c: "count_in (ins_all [] xs) v = int (count_list xs v)"
    by (simp add: ins_all_count_in)
  have "v \<in> set (BST_values ?b)" using bi kk assms(2) by (simp add: BST_values_def)
  from BST_insert_aux_present[OF bo this]
  have b3: "BST_shape (BST_insert ?b v) = BST_shape ?b" by (simp add: BST_insert_def)
  have b4: "BST_size (BST_insert ?b v) = BST_size ?b" using b3 by (rule BST_shape_size)
  from AVL_inserts_inorder[of ANone xs] obtain t where
    t: "AVL_inserts ANone xs = Inr t" "avl_inv t" "AVL_ordered t"
       "AVL_inorder t = ins_all [] xs" by auto
  have "v \<in> set (AVL_values t)" using t(4) kk assms(2) by (simp add: AVL_values_def)
  from AVL_insert_aux_present[OF t(2,3) this] obtain t' where
    t': "AVL_insert t v = Inr t'" "AVL_shape t' = AVL_shape t" by (auto simp: AVL_insert_def)
  have "AVL_size t' = AVL_size t" using t'(2) by (rule AVL_shape_size)
  with t t' n c have
    "\<exists>t t'. AVL_inserts ANone xs = Inr t \<and> AVL_nodes_with t v = 1
         \<and> AVL_count_of t v = int (count_list xs v)
         \<and> AVL_insert t v = Inr t' \<and> AVL_shape t' = AVL_shape t
         \<and> AVL_size t' = AVL_size t"
    by (auto simp: AVL_nodes_with_def AVL_count_of_def)
  with r1 r2 n c b3 b4 bi show ?thesis
    by (simp add: BST_nodes_with_def BST_count_of_def)
qed


theorem duplicates_counted_not_restructured_witness:
  "BST_inserts BNone (replicate 2 5) = BSTNode 5 BNone BNone 2
   \<and> AVL_inserts ANone (replicate 2 5) = Inr (AVLNode 5 ANone ANone 1 2)
   \<and> BST_nodes_with (BST_inserts BNone [5, 3, 5]) 5 = 1
   \<and> BST_count_of (BST_inserts BNone [5, 3, 5]) 5 = 2
   \<and> BST_size (BST_insert (BST_inserts BNone [5, 3, 5]) 5) = BST_size (BST_inserts BNone [5, 3, 5])
   \<and> (\<exists>t t'. AVL_inserts ANone [5, 3, 5] = Inr t \<and> AVL_nodes_with t 5 = 1
         \<and> AVL_count_of t 5 = 2
         \<and> AVL_insert t 5 = Inr t' \<and> AVL_shape t' = AVL_shape t
         \<and> AVL_size t' = AVL_size t)"
proof -
  have k: "(1::nat) \<le> 2" and m: "(5::int) \<in> set [5, 3, 5]" by simp_all
  show ?thesis using duplicates_counted_not_restructured [OF k m] by simp
qed

text \<open>
  C8. A left rotation at a node \<open>z\<close> whose right child \<open>y\<close> is present returns \<open>y\<close> as the
  new root, with \<open>z\<close> as its left child and the former left subtree \<open>T2\<close> of \<open>y\<close> as the right
  child of \<open>z\<close>; the height of \<open>z\<close> is recomputed first and then the height of \<open>y\<close>, from
  the new \<open>z\<close>. The right rotation is the mirror image. Both rotations leave the in-order
  sequence of (value, count) pairs unchanged.
\<close>

theorem rotation_semantics:
  "AVL_left_rotate (AVLNode zv zl (AVLNode yv T2 yr yh yc) zh zc)
     = Inr (AVLNode yv (AVLNode zv zl T2 (1 + max (AVL_height zl) (AVL_height T2)) zc) yr
              (1 + max (1 + max (AVL_height zl) (AVL_height T2)) (AVL_height yr)) yc)
   \<and> AVL_right_rotate (AVLNode zv (AVLNode yv yl T3 yh yc) zr zh zc)
     = Inr (AVLNode yv yl (AVLNode zv T3 zr (1 + max (AVL_height T3) (AVL_height zr)) zc)
              (1 + max (AVL_height yl) (1 + max (AVL_height T3) (AVL_height zr))) yc)
   \<and> (\<exists>t. AVL_left_rotate (AVLNode zv zl (AVLNode yv T2 yr yh yc) zh zc) = Inr t
         \<and> AVL_inorder t = AVL_inorder (AVLNode zv zl (AVLNode yv T2 yr yh yc) zh zc))
   \<and> (\<exists>t. AVL_right_rotate (AVLNode zv (AVLNode yv yl T3 yh yc) zr zh zc) = Inr t
         \<and> AVL_inorder t = AVL_inorder (AVLNode zv (AVLNode yv yl T3 yh yc) zr zh zc))"
proof (intro conjI)
  show "\<exists>t. AVL_left_rotate (AVLNode zv zl (AVLNode yv T2 yr yh yc) zh zc) = Inr t
         \<and> AVL_inorder t = AVL_inorder (AVLNode zv zl (AVLNode yv T2 yr yh yc) zh zc)"
    using AVL_left_rotate_inorder AVL_left_rotate_node by blast
  show "\<exists>t. AVL_right_rotate (AVLNode zv (AVLNode yv yl T3 yh yc) zr zh zc) = Inr t
         \<and> AVL_inorder t = AVL_inorder (AVLNode zv (AVLNode yv yl T3 yh yc) zr zh zc)"
    using AVL_right_rotate_inorder AVL_right_rotate_node by blast
qed (rule AVL_left_rotate_node AVL_right_rotate_node)+

theorem rotation_semantics_witness:
  "AVL_left_rotate (AVLNode 1 ANone (AVLNode 2 ANone (AVLNode 3 ANone ANone 1 1) 2 1) 3 1)
     = Inr (AVLNode 2 (AVLNode 1 ANone ANone 1 1) (AVLNode 3 ANone ANone 1 1) 2 1)
   \<and> AVL_right_rotate (AVLNode 3 (AVLNode 2 (AVLNode 1 ANone ANone 1 1) ANone 2 1) ANone 3 1)
     = Inr (AVLNode 2 (AVLNode 1 ANone ANone 1 1) (AVLNode 3 ANone ANone 1 1) 2 1)"
  using rotation_semantics [where zv = 1 and zl = ANone and yv = 2 and ?T2.0 = ANone
      and yr = "AVLNode 3 ANone ANone 1 1" and yh = 2 and yc = 1 and zh = 3 and zc = 1]
    rotation_semantics [where zv = 3 and yl = "AVLNode 1 ANone ANone 1 1" and yv = 2
      and ?T3.0 = ANone and zr = ANone and yh = 2 and yc = 1 and zh = 3 and zc = 1]
  by simp

end
